theory Spec2Isabelle
  imports Main
begin

section \<open>Python values: exceptions and list indexing\<close>

text \<open>
  The exceptions that the circuit code and the tensor-network library it calls can raise.
  A failing call is a value \<open>Inl e\<close>; a call that mutates objects before it fails returns
  the store it has reached together with the error.
\<close>

datatype py_error = ValueError | AssertionError | IndexError | KeyError

definition bindE :: "py_error + 'a \<Rightarrow> ('a \<Rightarrow> py_error + 'b) \<Rightarrow> py_error + 'b" where
  "bindE m f = (case m of Inl e \<Rightarrow> Inl e | Inr x \<Rightarrow> f x)"

text \<open>Python list subscripting: a negative index counts from the end, anything else
  outside the list raises IndexError.\<close>

definition py_index :: "nat \<Rightarrow> int \<Rightarrow> nat option" where
  "py_index n i =
     (if 0 \<le> i \<and> i < int n then Some (nat i)
      else if - int n \<le> i \<and> i < 0 then Some (nat (int n + i))
      else None)"

definition py_getitem :: "'a list \<Rightarrow> int \<Rightarrow> py_error + 'a" where
  "py_getitem xs i = (case py_index (length xs) i of None \<Rightarrow> Inl IndexError | Some j \<Rightarrow> Inr (xs ! j))"

definition py_setitem :: "'a list \<Rightarrow> int \<Rightarrow> 'a \<Rightarrow> py_error + 'a list" where
  "py_setitem xs i v = (case py_index (length xs) i of None \<Rightarrow> Inl IndexError | Some j \<Rightarrow> Inr (xs[j := v]))"

fun mapE :: "('a \<Rightarrow> py_error + 'b) \<Rightarrow> 'a list \<Rightarrow> py_error + 'b list" where
  "mapE f [] = Inr []"
| "mapE f (x # xs) = bindE (f x) (\<lambda>y. bindE (mapE f xs) (\<lambda>ys. Inr (y # ys)))"

section \<open>The tensor-network objects (library \<open>tensornetwork\<close>, imported as \<open>tn\<close>)\<close>

text \<open>
  The circuit threads objects of the library: nodes, each wrapping an array and holding one
  edge object per axis, and edge objects, each dangling (one endpoint) or connected (two
  endpoints). Objects are identified by their address in a store; an address is the
  position of the object in the store's table, and a new object is appended. An array is
  its shape and its entries in row-major order. Node names serve the graphviz export only
  and are left out.
\<close>

record 'a ndarray =
  shape :: "nat list"
  flat :: "'a list"

record edge_obj =
  node1 :: nat
  axis1 :: nat
  node2 :: "nat option"
  axis2 :: "nat option"

record 'a node_obj =
  tensor :: "'a ndarray"
  edges :: "nat list"

record 'a heap =
  node_tab :: "'a node_obj list"
  edge_tab :: "edge_obj list"

text \<open>\<open>tn.Node(array)\<close>: a new node with one new dangling edge per axis.\<close>

definition tn_Node :: "'a ndarray \<Rightarrow> 'a heap \<Rightarrow> nat \<times> 'a heap" where
  "tn_Node t h =
     (let v = length (node_tab h); e0 = length (edge_tab h); r = length (shape t)
      in (v, \<lparr>node_tab = node_tab h @ [\<lparr>tensor = t, edges = map (\<lambda>a. e0 + a) [0..<r]\<rparr>],
              edge_tab = edge_tab h @
                 map (\<lambda>a. \<lparr>node1 = v, axis1 = a, node2 = None, axis2 = None\<rparr>) [0..<r]\<rparr>))"

text \<open>\<open>node.get_edge(i)\<close> subscripts the node's list of edges.\<close>

definition get_edge :: "'a heap \<Rightarrow> nat \<Rightarrow> int \<Rightarrow> py_error + nat" where
  "get_edge h v i = py_getitem (edges (node_tab h ! v)) i"

definition is_dangling :: "'a heap \<Rightarrow> nat \<Rightarrow> bool" where
  "is_dangling h e = (node2 (edge_tab h ! e) = None)"

definition dimension :: "'a heap \<Rightarrow> nat \<Rightarrow> nat" where
  "dimension h e = (let E = edge_tab h ! e in shape (tensor (node_tab h ! node1 E)) ! axis1 E)"

definition add_edge :: "nat \<Rightarrow> nat \<Rightarrow> nat \<Rightarrow> 'a node_obj list \<Rightarrow> 'a node_obj list" where
  "add_edge v e a ns = ns[v := (ns ! v)\<lparr>edges := (edges (ns ! v))[a := e]\<rparr>]"

text \<open>
  \<open>tn.connect(edge1, edge2)\<close>, also written \<open>edge1 ^ edge2\<close>: both edge objects must be
  dangling, different and of the same dimension; a new edge object joining the two
  endpoints replaces them in the edge lists of their nodes. The two old edge objects stay
  as they are.
\<close>

definition tn_connect :: "nat \<Rightarrow> nat \<Rightarrow> 'a heap \<Rightarrow> py_error + 'a heap" where
  "tn_connect e1 e2 h =
     (if \<not> is_dangling h e1 \<or> \<not> is_dangling h e2 then Inl ValueError
      else if e1 = e2 then Inl ValueError
      else if dimension h e1 \<noteq> dimension h e2 then Inl ValueError
      else let E1 = edge_tab h ! e1; E2 = edge_tab h ! e2; new = length (edge_tab h)
           in Inr \<lparr>node_tab = add_edge (node1 E2) new (axis1 E2)
                                 (add_edge (node1 E1) new (axis1 E1) (node_tab h)),
                   edge_tab = edge_tab h @
                      [\<lparr>node1 = node1 E1, axis1 = axis1 E1,
                        node2 = Some (node1 E2), axis2 = Some (axis1 E2)\<rparr>]\<rparr>)"

section \<open>The circuit\<close>

record circuit =
  nqubits :: int
  c_nodes :: "nat list"
  c_front :: "nat list"

type_synonym 'a world = "'a heap \<times> circuit"

subsection \<open>Construction\<close>

definition interior_tensor :: "'a::{zero,one} ndarray" where
  "interior_tensor = \<lparr>shape = [2, 1, 1], flat = [1, 0]\<rparr>"

definition end_tensor :: "'a::{zero,one} ndarray" where
  "end_tensor = \<lparr>shape = [2, 1], flat = [1, 0]\<rparr>"

fun new_nodes :: "'a ndarray \<Rightarrow> nat \<Rightarrow> 'a heap \<Rightarrow> nat list \<times> 'a heap" where
  "new_nodes t 0 h = ([], h)"
| "new_nodes t (Suc m) h =
     (let (v, h1) = tn_Node t h; (vs, h2) = new_nodes t m h1 in (v # vs, h2))"

text \<open>\<open>tn.connect(nodes[i].get_edge(a), nodes[j].get_edge(b))\<close>\<close>

definition connect_nodes :: "nat list \<Rightarrow> int \<Rightarrow> int \<Rightarrow> int \<Rightarrow> int \<Rightarrow> 'a heap \<Rightarrow> py_error + 'a heap" where
  "connect_nodes nodes i a j b h =
     bindE (py_getitem nodes i) (\<lambda>u. bindE (get_edge h u a) (\<lambda>e1.
     bindE (py_getitem nodes j) (\<lambda>v. bindE (get_edge h v b) (\<lambda>e2.
     tn_connect e1 e2 h))))"

fun connect_middle :: "nat list \<Rightarrow> nat list \<Rightarrow> 'a heap \<Rightarrow> py_error + 'a heap" where
  "connect_middle nodes [] h = Inr h"
| "connect_middle nodes (i # rest) h =
     bindE (connect_nodes nodes (int i) 2 (int i + 1) 1 h) (connect_middle nodes rest)"

definition circuit_init :: "int \<Rightarrow> 'a::{zero,one} heap \<Rightarrow> py_error + 'a world" where
  "circuit_init nq h =
     (if nq < 2 then Inl ValueError
      else
        let (inner, h1) = new_nodes interior_tensor (nat (nq - 2)) h;
            (a, h2) = tn_Node end_tensor h1;
            (b, h3) = tn_Node end_tensor h2;
            nodes = (a # inner) @ [b]
        in bindE (connect_middle nodes [1..<nat (nq - 2)] h3) (\<lambda>h4.
           bindE (if nq < 3 then connect_nodes nodes 0 1 1 1 h4
                  else bindE (connect_nodes nodes 0 1 1 1 h4)
                             (connect_nodes nodes (- 1) 1 (- 2) 2)) (\<lambda>h5.
           bindE (mapE (\<lambda>v. get_edge h5 v 0) nodes) (\<lambda>front.
           Inr (h5, \<lparr>nqubits = nq, c_nodes = nodes, c_front = front\<rparr>)))))"

subsection \<open>Gate application\<close>

text \<open>Statements run in sequence; an exception stops the sequence in the state reached.\<close>

definition thenS :: "('s \<Rightarrow> (py_error + unit) \<times> 's) \<Rightarrow> ('s \<Rightarrow> (py_error + 'b) \<times> 's) \<Rightarrow> 's \<Rightarrow> (py_error + 'b) \<times> 's" where
  "thenS f g s = (case f s of (Inl e, s') \<Rightarrow> (Inl e, s') | (Inr u, s') \<Rightarrow> g s')"

text \<open>\<open>gate.get_edge(i) ^ self._front[ind]\<close>\<close>

definition front_connect :: "nat \<Rightarrow> int \<Rightarrow> int \<Rightarrow> 'a world \<Rightarrow> (py_error + unit) \<times> 'a world" where
  "front_connect gate i ind w =
     (case bindE (get_edge (fst w) gate i) (\<lambda>ge.
           bindE (py_getitem (c_front (snd w)) ind) (\<lambda>fe. tn_connect ge fe (fst w))) of
        Inl e \<Rightarrow> (Inl e, w)
      | Inr h' \<Rightarrow> (Inr (), (h', snd w)))"

text \<open>\<open>self._front[ind] = gate.get_edge(j)\<close>\<close>

definition front_assign :: "nat \<Rightarrow> int \<Rightarrow> int \<Rightarrow> 'a world \<Rightarrow> (py_error + unit) \<times> 'a world" where
  "front_assign gate j ind w =
     (case bindE (get_edge (fst w) gate j) (\<lambda>ge. py_setitem (c_front (snd w)) ind ge) of
        Inl e \<Rightarrow> (Inl e, w)
      | Inr f' \<Rightarrow> (Inr (), (fst w, (snd w)\<lparr>c_front := f'\<rparr>)))"

text \<open>\<open>self._nodes.append(gate)\<close>\<close>

definition nodes_append :: "nat \<Rightarrow> 'a world \<Rightarrow> (py_error + unit) \<times> 'a world" where
  "nodes_append gate w = (Inr (), (fst w, (snd w)\<lparr>c_nodes := c_nodes (snd w) @ [gate]\<rparr>))"

definition apply_single_gate :: "nat \<Rightarrow> int \<Rightarrow> 'a world \<Rightarrow> (py_error + unit) \<times> 'a world" where
  "apply_single_gate gate index =
     thenS (front_connect gate 0 index)
    (thenS (front_assign gate 1 index)
           (nodes_append gate))"

definition apply_double_gate :: "nat \<Rightarrow> int \<Rightarrow> int \<Rightarrow> 'a world \<Rightarrow> (py_error + unit) \<times> 'a world" where
  "apply_double_gate gate index1 index2 w =
     (if \<not> index1 \<noteq> index2 then (Inl AssertionError, w)
      else (thenS (front_connect gate 0 index1)
           (thenS (front_connect gate 1 index2)
           (thenS (front_assign gate 2 index1)
           (thenS (front_assign gate 3 index2)
                  (nodes_append gate))))) w)"

text \<open>The body of the loop of \<open>apply_general_gate\<close> at position \<open>i\<close> with target \<open>ind\<close>.\<close>

definition gate_step :: "nat \<Rightarrow> nat \<Rightarrow> nat \<Rightarrow> int \<Rightarrow> 'a world \<Rightarrow> (py_error + unit) \<times> 'a world" where
  "gate_step gate noe i ind =
     thenS (front_connect gate (int i) ind) (front_assign gate (int (i + noe)) ind)"

fun gate_loop :: "nat \<Rightarrow> nat \<Rightarrow> (nat \<times> int) list \<Rightarrow> 'a world \<Rightarrow> (py_error + unit) \<times> 'a world" where
  "gate_loop gate noe [] w = (Inr (), w)"
| "gate_loop gate noe ((i, ind) # rest) w =
     thenS (gate_step gate noe i ind) (gate_loop gate noe rest) w"

definition apply_general_gate :: "nat \<Rightarrow> int list \<Rightarrow> 'a world \<Rightarrow> (py_error + unit) \<times> 'a world" where
  "apply_general_gate gate index w =
     (if length index \<noteq> length (remdups index) then (Inl AssertionError, w)
      else thenS (gate_loop gate (length index) (enumerate 0 index)) (nodes_append gate) w)"

section \<open>Well-formed networks\<close>

text \<open>
  The edge object held by axis \<open>a\<close> of node \<open>v\<close>, and the number of axes of a node. A
  network is a list of nodes of the store. It is well formed when every axis of every node
  of the list holds an edge object that is either dangling with this axis as its endpoint,
  or connected with both endpoints at axes of nodes of the list that hold this same object.
\<close>

definition slot :: "'a heap \<Rightarrow> nat \<Rightarrow> nat \<Rightarrow> nat" where
  "slot h v a = edges (node_tab h ! v) ! a"

definition rank :: "'a heap \<Rightarrow> nat \<Rightarrow> nat" where
  "rank h v = length (edges (node_tab h ! v))"

definition edge_ok :: "'a heap \<Rightarrow> nat list \<Rightarrow> nat \<Rightarrow> nat \<Rightarrow> bool" where
  "edge_ok h ns v a =
     (let e = slot h v a; E = edge_tab h ! e
      in e < length (edge_tab h) \<and>
         (case node2 E of
            None \<Rightarrow> node1 E = v \<and> axis1 E = a
          | Some v2 \<Rightarrow>
              (case axis2 E of
                 None \<Rightarrow> False
               | Some a2 \<Rightarrow>
                   node1 E \<in> set ns \<and> v2 \<in> set ns \<and>
                   axis1 E < rank h (node1 E) \<and> a2 < rank h v2 \<and>
                   slot h (node1 E) (axis1 E) = e \<and> slot h v2 a2 = e)))"

definition wf_net :: "'a heap \<Rightarrow> nat list \<Rightarrow> bool" where
  "wf_net h ns =
     (distinct ns \<and>
      (\<forall>v \<in> set ns. v < length (node_tab h) \<and>
                     length (shape (tensor (node_tab h ! v))) = rank h v \<and>
                     (\<forall>a \<in> set [0..<rank h v]. edge_ok h ns v a)))"

text \<open>All edge objects held by the nodes of a network (\<open>tn.get_all_edges\<close>), and the
  dangling ones among them (\<open>tn.get_subgraph_dangling\<close>).\<close>

definition all_edges :: "'a heap \<Rightarrow> nat list \<Rightarrow> nat list" where
  "all_edges h ns = remdups (concat (map (\<lambda>v. edges (node_tab h ! v)) ns))"

definition dangling_edges :: "'a heap \<Rightarrow> nat list \<Rightarrow> nat list" where
  "dangling_edges h ns = filter (is_dangling h) (all_edges h ns)"

text \<open>
  The invariant of a circuit: its nodes form a well-formed network, and \<open>front\<close> lists,
  without repetition, exactly the dangling edges of that network, one per qubit, each of
  dimension 2.
\<close>

definition wf_circuit :: "'a world \<Rightarrow> bool" where
  "wf_circuit w =
     (let h = fst w; c = snd w
      in wf_net h (c_nodes c) \<and>
         2 \<le> nqubits c \<and> nqubits c = int (length (c_front c)) \<and>
         distinct (c_front c) \<and>
         set (c_front c) = set (dangling_edges h (c_nodes c)) \<and>
         (\<forall>e \<in> set (c_front c). dimension h e = 2))"

text \<open>
  A gate node for \<open>k\<close> qubits that has not been used: it is not among the nodes of the
  circuit, its array has \<open>2k\<close> axes of dimension 2, and each axis holds its own dangling
  edge, as \<open>tn.Node\<close> leaves it.
\<close>

definition fresh_gate :: "'a world \<Rightarrow> nat \<Rightarrow> nat \<Rightarrow> bool" where
  "fresh_gate w g k =
     (let h = fst w
      in g < length (node_tab h) \<and> g \<notin> set (c_nodes (snd w)) \<and>
         shape (tensor (node_tab h ! g)) = replicate (2 * k) 2 \<and>
         rank h g = 2 * k \<and> distinct (edges (node_tab h ! g)) \<and>
         (\<forall>a \<in> set [0..<2 * k].
            slot h g a < length (edge_tab h) \<and>
            edge_tab h ! slot h g a = \<lparr>node1 = g, axis1 = a, node2 = None, axis2 = None\<rparr>))"

section \<open>Contraction\<close>

text \<open>
  Entries of an array by multi-index (row-major), and all multi-indices of a shape in
  row-major order.
\<close>

definition flat_index :: "nat list \<Rightarrow> nat list \<Rightarrow> nat" where
  "flat_index ds js = foldl (\<lambda>acc (d, j). acc * d + j) 0 (zip ds js)"

definition entry :: "'a ndarray \<Rightarrow> nat list \<Rightarrow> 'a" where
  "entry t js = flat t ! flat_index (shape t) js"

fun indices :: "nat list \<Rightarrow> nat list list" where
  "indices [] = [[]]"
| "indices (d # ds) = concat (map (\<lambda>j. map ((#) j) (indices ds)) [0..<d])"

text \<open>
  The sum over all values of the connected edges \<open>es\<close> of the product of the entries of
  the nodes: \<open>\<sigma>\<close> gives the value of each edge, \<open>F\<close> the product at a full assignment.
\<close>

fun contract_sum :: "(nat \<Rightarrow> nat) \<Rightarrow> nat list \<Rightarrow> (nat \<Rightarrow> nat) \<Rightarrow> ((nat \<Rightarrow> nat) \<Rightarrow> 'a) \<Rightarrow> 'a::comm_semiring_1" where
  "contract_sum dim [] \<sigma> F = F \<sigma>"
| "contract_sum dim (e # es) \<sigma> F =
     sum_list (map (\<lambda>j. contract_sum dim es (\<sigma>(e := j)) F) [0..<dim e])"

definition node_product :: "'a heap \<Rightarrow> nat list \<Rightarrow> (nat \<Rightarrow> nat) \<Rightarrow> 'a::comm_semiring_1" where
  "node_product h ns \<sigma> =
     prod_list (map (\<lambda>v. entry (tensor (node_tab h ! v)) (map \<sigma> (edges (node_tab h ! v)))) ns)"

fun assign :: "nat list \<Rightarrow> nat list \<Rightarrow> nat \<Rightarrow> nat" where
  "assign [] js = (\<lambda>e. 0)"
| "assign (e # es) [] = (\<lambda>e. 0)"
| "assign (e # es) (j # js) = (assign es js)(e := j)"

text \<open>
  \<open>tn.contractors.greedy(nodes, output_edge_order)\<close> contracts the whole network into one
  node. The library chooses the order of the pairwise contractions; the array it returns
  is the one below whatever the order, for entries in a commutative semiring (rounding of
  floating-point entries is not part of this model): its axes are the output edges in the
  order given, and its entry at a multi-index is the sum, over the values of all connected
  edges, of the product of the node entries. The output edges must be the dangling edges of
  the network; with no order given at most one dangling edge may remain.
\<close>

definition greedy :: "'a heap \<Rightarrow> nat list \<Rightarrow> nat list option \<Rightarrow> py_error + 'a::comm_semiring_1 ndarray" where
  "greedy h ns output_edge_order =
     (let dang = dangling_edges h ns
      in bindE (case output_edge_order of
                  None \<Rightarrow> if 1 < length dang then Inl ValueError else Inr dang
                | Some os \<Rightarrow> Inr os) (\<lambda>os.
         if set os \<noteq> set dang \<or> \<not> distinct os then Inl ValueError
         else Inr \<lparr>shape = map (dimension h) os,
                   flat = map (\<lambda>js. contract_sum (dimension h)
                                      (filter (\<lambda>e. \<not> is_dangling h e) (all_edges h ns))
                                      (assign os js) (node_product h ns))
                              (indices (map (dimension h) os))\<rparr>))"

section \<open>Extraction\<close>

text \<open>
  \<open>tn.copy(nodes)\<close>: a new node for every node of the list, with the same array, and a
  new edge object for every edge object held by these nodes, with the copies of its
  endpoints; the two dictionaries send every node and every edge to its copy. An edge
  with an endpoint outside the list has no copy of that endpoint to attach to.
\<close>

definition lookup :: "('k \<Rightarrow> 'v option) \<Rightarrow> 'k \<Rightarrow> py_error + 'v" where
  "lookup d k = (case d k of None \<Rightarrow> Inl KeyError | Some v \<Rightarrow> Inr v)"

definition copy_edge :: "'a heap \<Rightarrow> (nat \<Rightarrow> nat option) \<Rightarrow> nat \<Rightarrow> py_error + edge_obj" where
  "copy_edge h ndict e =
     (let E = edge_tab h ! e
      in bindE (lookup ndict (node1 E)) (\<lambda>n1.
         case node2 E of
           None \<Rightarrow> Inr \<lparr>node1 = n1, axis1 = axis1 E, node2 = None, axis2 = None\<rparr>
         | Some v2 \<Rightarrow> bindE (lookup ndict v2) (\<lambda>n2.
             Inr \<lparr>node1 = n1, axis1 = axis1 E, node2 = Some n2, axis2 = axis2 E\<rparr>)))"

definition tn_copy :: "nat list \<Rightarrow> 'a heap \<Rightarrow> py_error + ((nat \<Rightarrow> nat option) \<times> (nat \<Rightarrow> nat option) \<times> 'a heap)" where
  "tn_copy ns h =
     (let nb = length (node_tab h); eb = length (edge_tab h);
          es = all_edges h ns;
          ndict = map_of (rev (zip ns [nb..<nb + length ns]));
          edict = map_of (zip es [eb..<eb + length es])
      in bindE (mapE (copy_edge h ndict) es) (\<lambda>new_edges.
         bindE (mapE (\<lambda>v. bindE (mapE (lookup edict) (edges (node_tab h ! v)))
                       (\<lambda>es'. Inr \<lparr>tensor = tensor (node_tab h ! v), edges = es'\<rparr>)) ns) (\<lambda>new_nodes.
         Inr (ndict, edict,
              \<lparr>node_tab = node_tab h @ new_nodes, edge_tab = edge_tab h @ new_edges\<rparr>))))"

text \<open>\<open>Circuit._copy\<close>\<close>

definition circuit_copy :: "'a world \<Rightarrow> (py_error + nat list \<times> nat list) \<times> 'a heap" where
  "circuit_copy w =
     (case tn_copy (c_nodes (snd w)) (fst w) of
        Inl e \<Rightarrow> (Inl e, fst w)
      | Inr (ndict, edict, h') \<Rightarrow>
          (bindE (mapE (lookup ndict) (c_nodes (snd w))) (\<lambda>newnodes.
           bindE (mapE (lookup edict) (c_front (snd w))) (\<lambda>newfront.
           Inr (newnodes, newfront))), h'))"

text \<open>\<open>backend.reshape(t, shape=[1, -1])\<close>: the same entries as one row.\<close>

definition reshape_row :: "'a ndarray \<Rightarrow> 'a ndarray" where
  "reshape_row t = \<lparr>shape = [1, length (flat t)], flat = flat t\<rparr>"

definition wavefunction :: "'a::comm_semiring_1 world \<Rightarrow> (py_error + 'a ndarray) \<times> 'a world" where
  "wavefunction w =
     (case circuit_copy w of
        (Inl e, h') \<Rightarrow> (Inl e, (h', snd w))
      | (Inr (nodes, d_edges), h') \<Rightarrow>
          (bindE (greedy h' nodes (Some d_edges)) (\<lambda>t. Inr (reshape_row t)), (h', snd w)))"

text \<open>The first loop of \<open>amplitude\<close>: one projector node per character that is 0 or 1.\<close>

fun measure_nodes :: "string \<Rightarrow> 'a::{zero,one} heap \<Rightarrow> nat list \<times> 'a heap" where
  "measure_nodes [] h = ([], h)"
| "measure_nodes (s # l) h =
     (if s = CHR ''1'' then
        (let (m, h1) = tn_Node \<lparr>shape = [2], flat = [0, 1]\<rparr> h; (ms, h2) = measure_nodes l h1
         in (m # ms, h2))
      else if s = CHR ''0'' then
        (let (m, h1) = tn_Node \<lparr>shape = [2], flat = [1, 0]\<rparr> h; (ms, h2) = measure_nodes l h1
         in (m # ms, h2))
      else measure_nodes l h)"

text \<open>The second loop: \<open>d_edges[i] ^ ms[i].get_edge(0)\<close> for every position of the string.\<close>

fun connect_measures :: "nat list \<Rightarrow> nat list \<Rightarrow> nat list \<Rightarrow> 'a heap \<Rightarrow> (py_error + unit) \<times> 'a heap" where
  "connect_measures d_edges ms [] h = (Inr (), h)"
| "connect_measures d_edges ms (i # rest) h =
     (case bindE (py_getitem d_edges (int i)) (\<lambda>d.
           bindE (py_getitem ms (int i)) (\<lambda>m.
           bindE (get_edge h m 0) (\<lambda>me. tn_connect d me h))) of
        Inl e \<Rightarrow> (Inl e, h)
      | Inr h' \<Rightarrow> connect_measures d_edges ms rest h')"

definition amplitude :: "string \<Rightarrow> 'a::comm_semiring_1 world \<Rightarrow> (py_error + 'a ndarray) \<times> 'a world" where
  "amplitude l w =
     (if int (length l) \<noteq> nqubits (snd w) then (Inl AssertionError, w)
      else case circuit_copy w of
        (Inl e, h1) \<Rightarrow> (Inl e, (h1, snd w))
      | (Inr (no, d_edges), h1) \<Rightarrow>
          (let (ms, h2) = measure_nodes l h1
           in case connect_measures d_edges ms [0..<length l] h2 of
                (Inl e, h3) \<Rightarrow> (Inl e, (h3, snd w))
              | (Inr u, h3) \<Rightarrow> (greedy h3 (no @ ms) None, (h3, snd w))))"

section \<open>Stores that extend a store\<close>

text \<open>A store extends another when it holds every object of the other, unchanged, at the
  same address.\<close>

definition heap_extends :: "'a heap \<Rightarrow> 'a heap \<Rightarrow> bool" where
  "heap_extends h h' =
     (take (length (node_tab h)) (node_tab h') = node_tab h \<and>
      take (length (edge_tab h)) (edge_tab h') = edge_tab h)"

section \<open>Basic facts\<close>

lemma py_index_nonneg: "0 \<le> i \<Longrightarrow> i < int n \<Longrightarrow> py_index n i = Some (nat i)"
  by (simp add: py_index_def)

lemma py_index_neg: "- int n \<le> i \<Longrightarrow> i < 0 \<Longrightarrow> py_index n i = Some (nat (int n + i))"
  by (simp add: py_index_def)

lemma py_index_lt: "py_index n i = Some j \<Longrightarrow> j < n"
  by (auto simp: py_index_def split: if_splits)

lemma py_index_nat [simp]: "j < n \<Longrightarrow> py_index n (int j) = Some j"
  by (simp add: py_index_def)

lemma py_getitem_nat [simp]: "j < length xs \<Longrightarrow> py_getitem xs (int j) = Inr (xs ! j)"
  by (simp add: py_getitem_def)

lemma py_getitem_index: "py_index (length xs) i = Some j \<Longrightarrow> py_getitem xs i = Inr (xs ! j)"
  by (simp add: py_getitem_def)

lemma py_setitem_index: "py_index (length xs) i = Some j \<Longrightarrow> py_setitem xs i v = Inr (xs[j := v])"
  by (simp add: py_setitem_def)

lemma bindE_Inr [simp]: "bindE (Inr x) f = f x"
  by (simp add: bindE_def)

lemma bindE_Inl [simp]: "bindE (Inl e) f = Inl e"
  by (simp add: bindE_def)

lemma bindE_eq_Inr: "bindE m f = Inr y \<longleftrightarrow> (\<exists>x. m = Inr x \<and> f x = Inr y)"
  by (cases m) auto

lemma thenS_Inr: "f s = (Inr u, s') \<Longrightarrow> thenS f g s = g s'"
  by (simp add: thenS_def)

lemma thenS_Inl: "f s = (Inl e, s') \<Longrightarrow> thenS f g s = (Inl e, s')"
  by (simp add: thenS_def)

subsection \<open>Creating nodes\<close>

lemma tn_Node_fst: "fst (tn_Node t h) = length (node_tab h)"
  by (simp add: tn_Node_def Let_def)

lemma tn_Node_node_tab:
  "node_tab (snd (tn_Node t h)) =
     node_tab h @ [\<lparr>tensor = t, edges = map (\<lambda>a. length (edge_tab h) + a) [0..<length (shape t)]\<rparr>]"
  by (simp add: tn_Node_def Let_def)

lemma tn_Node_edge_tab:
  "edge_tab (snd (tn_Node t h)) =
     edge_tab h @ map (\<lambda>a. \<lparr>node1 = length (node_tab h), axis1 = a, node2 = None, axis2 = None\<rparr>)
                      [0..<length (shape t)]"
  by (simp add: tn_Node_def Let_def)

subsection \<open>Connecting edges\<close>

lemma add_edge_length [simp]: "length (add_edge v e a ns) = length ns"
  by (simp add: add_edge_def)

lemma add_edge_tensor [simp]: "tensor (add_edge v e a ns ! u) = tensor (ns ! u)"
  by (cases "v < length ns"; cases "u = v") (simp_all add: add_edge_def list_update_beyond)

lemma add_edge_edges_length [simp]: "length (edges (add_edge v e a ns ! u)) = length (edges (ns ! u))"
  by (cases "v < length ns"; cases "u = v") (simp_all add: add_edge_def list_update_beyond)

lemma add_edge_nth:
  "v < length ns \<Longrightarrow> a < length (edges (ns ! v)) \<Longrightarrow> b < length (edges (ns ! u)) \<Longrightarrow>
   edges (add_edge v e a ns ! u) ! b = (if u = v \<and> b = a then e else edges (ns ! u) ! b)"
  by (cases "u = v") (simp_all add: add_edge_def nth_list_update)

text \<open>What a successful connect of two edges at locations (v1,a1), (v2,a2) does.\<close>

lemma tn_connect_Inr:
  assumes "tn_connect e1 e2 h = Inr h'"
  shows "is_dangling h e1" "is_dangling h e2" "e1 \<noteq> e2" "dimension h e1 = dimension h e2"
    "length (node_tab h') = length (node_tab h)"
    "edge_tab h' = edge_tab h @ [\<lparr>node1 = node1 (edge_tab h ! e1), axis1 = axis1 (edge_tab h ! e1),
         node2 = Some (node1 (edge_tab h ! e2)), axis2 = Some (axis1 (edge_tab h ! e2))\<rparr>]"
    "tensor (node_tab h' ! u) = tensor (node_tab h ! u)"
    "rank h' u = rank h u"
  using assms by (auto simp: tn_connect_def Let_def rank_def split: if_splits)

lemma tn_connect_slot:
  assumes "tn_connect e1 e2 h = Inr h'"
    and "node1 (edge_tab h ! e1) < length (node_tab h)" "axis1 (edge_tab h ! e1) < rank h (node1 (edge_tab h ! e1))"
    and "node1 (edge_tab h ! e2) < length (node_tab h)" "axis1 (edge_tab h ! e2) < rank h (node1 (edge_tab h ! e2))"
    and "b < rank h u"
  shows "slot h' u b =
     (if (u = node1 (edge_tab h ! e1) \<and> b = axis1 (edge_tab h ! e1)) \<or>
         (u = node1 (edge_tab h ! e2) \<and> b = axis1 (edge_tab h ! e2))
      then length (edge_tab h) else slot h u b)"
  using assms by (auto simp: tn_connect_def Let_def rank_def slot_def add_edge_nth split: if_splits)

lemma tn_connect_succeeds:
  "is_dangling h e1 \<Longrightarrow> is_dangling h e2 \<Longrightarrow> e1 \<noteq> e2 \<Longrightarrow> dimension h e1 = dimension h e2 \<Longrightarrow>
   \<exists>h'. tn_connect e1 e2 h = Inr h'"
  by (simp add: tn_connect_def Let_def)


section \<open>Duplicate targets\<close>

lemma remdups_length_distinct: "length xs = length (remdups xs) \<longleftrightarrow> distinct xs"
  by (metis length_remdups_eq remdups_id_iff_distinct)

text \<open>
  Claim C7. A gate application in which two of the supplied target indices are equal fails
  at the assertion, before anything is touched: the store and the circuit (front, nodes)
  are those before the call, for \<open>apply_general_gate\<close> and for \<open>apply_double_gate\<close>, so
  \<open>wavefunction\<close> called afterwards computes what it computed before.
\<close>

theorem duplicate_target_rejected:
  assumes "i < length index" "j < length index" "i \<noteq> j" "index ! i = index ! j"
  shows "apply_general_gate gate index w = (Inl AssertionError, w)
       \<and> wavefunction (snd (apply_general_gate gate index w)) = wavefunction w
       \<and> apply_double_gate gate (index ! i) (index ! j) w = (Inl AssertionError, w)
       \<and> wavefunction (snd (apply_double_gate gate (index ! i) (index ! j) w)) = wavefunction w"
proof -
  from assms have "\<not> distinct index"
    by (auto simp: distinct_conv_nth)
  then have "length index \<noteq> length (remdups index)"
    by (simp add: remdups_length_distinct)
  then have g: "apply_general_gate gate index w = (Inl AssertionError, w)"
    by (simp add: apply_general_gate_def)
  have d: "apply_double_gate gate (index ! i) (index ! j) w = (Inl AssertionError, w)"
    using assms(4) by (simp add: apply_double_gate_def)
  show ?thesis by (simp add: g d)
qed

theorem duplicate_target_rejected_witness:
  "apply_general_gate 3 [0, 1, 0] (\<lparr>node_tab = [], edge_tab = []\<rparr>, \<lparr>nqubits = 2, c_nodes = [], c_front = []\<rparr>)
     = (Inl AssertionError, (\<lparr>node_tab = [], edge_tab = []\<rparr> :: int heap, \<lparr>nqubits = 2, c_nodes = [], c_front = []\<rparr>))
   \<and> apply_double_gate 3 0 0 (\<lparr>node_tab = [], edge_tab = []\<rparr>, \<lparr>nqubits = 2, c_nodes = [], c_front = []\<rparr>)
     = (Inl AssertionError, (\<lparr>node_tab = [], edge_tab = []\<rparr> :: int heap, \<lparr>nqubits = 2, c_nodes = [], c_front = []\<rparr>))"
  using duplicate_target_rejected [of 0 "[0, 1, 0]" 2 3
      "(\<lparr>node_tab = [], edge_tab = []\<rparr> :: int heap, \<lparr>nqubits = 2, c_nodes = [], c_front = []\<rparr>)"]
  by simp

subsection \<open>Well-formed networks\<close>

lemma set_all_edges:
  "set (all_edges h ns) = {slot h v a | v a. v \<in> set ns \<and> a < rank h v}"
proof -
  have "set (edges (node_tab h ! v)) = {slot h v a | a. a < rank h v}" for v
    by (auto simp: slot_def rank_def in_set_conv_nth)
  then show ?thesis by (auto simp: all_edges_def)
qed

lemma distinct_all_edges [simp]: "distinct (all_edges h ns)"
  by (simp add: all_edges_def)

lemma set_dangling_edges:
  "set (dangling_edges h ns) = {slot h v a | v a. v \<in> set ns \<and> a < rank h v \<and> is_dangling h (slot h v a)}"
  unfolding dangling_edges_def by (auto simp: set_all_edges)

lemma dangling_edgesI:
  "v \<in> set ns \<Longrightarrow> a < rank h v \<Longrightarrow> is_dangling h (slot h v a) \<Longrightarrow>
   slot h v a \<in> set (dangling_edges h ns)"
  by (auto simp: set_dangling_edges)

lemma distinct_dangling_edges [simp]: "distinct (dangling_edges h ns)"
  by (simp add: dangling_edges_def)

lemma wf_net_edge_ok: "wf_net h ns \<Longrightarrow> v \<in> set ns \<Longrightarrow> a < rank h v \<Longrightarrow> edge_ok h ns v a"
  by (simp add: wf_net_def)

lemma wf_net_node: "wf_net h ns \<Longrightarrow> v \<in> set ns \<Longrightarrow>
   v < length (node_tab h) \<and> length (shape (tensor (node_tab h ! v))) = rank h v"
  by (simp add: wf_net_def)

lemma edge_ok_bound: "edge_ok h ns v a \<Longrightarrow> slot h v a < length (edge_tab h)"
  by (simp add: edge_ok_def Let_def)

lemma edge_ok_dangling:
  "edge_ok h ns v a \<Longrightarrow> is_dangling h (slot h v a) \<Longrightarrow>
   node1 (edge_tab h ! slot h v a) = v \<and> axis1 (edge_tab h ! slot h v a) = a"
  by (simp add: edge_ok_def Let_def is_dangling_def)

lemma edge_ok_connected:
  assumes "edge_ok h ns v a" "\<not> is_dangling h (slot h v a)"
  obtains v2 a2 where "node2 (edge_tab h ! slot h v a) = Some v2"
    "axis2 (edge_tab h ! slot h v a) = Some a2"
    "node1 (edge_tab h ! slot h v a) \<in> set ns" "v2 \<in> set ns"
    "axis1 (edge_tab h ! slot h v a) < rank h (node1 (edge_tab h ! slot h v a))" "a2 < rank h v2"
    "slot h (node1 (edge_tab h ! slot h v a)) (axis1 (edge_tab h ! slot h v a)) = slot h v a"
    "slot h v2 a2 = slot h v a"
  using assms by (auto simp: edge_ok_def Let_def is_dangling_def split: option.splits)

text \<open>A dangling edge of a well-formed network sits at its own endpoint, and nowhere else.\<close>

lemma dangling_location:
  assumes "wf_net h ns" "d \<in> set (dangling_edges h ns)"
  shows "node1 (edge_tab h ! d) \<in> set ns"
    "axis1 (edge_tab h ! d) < rank h (node1 (edge_tab h ! d))"
    "slot h (node1 (edge_tab h ! d)) (axis1 (edge_tab h ! d)) = d"
    "is_dangling h d" "d < length (edge_tab h)"
    "node1 (edge_tab h ! d) < length (node_tab h)"
proof -
  from assms(2) obtain v a where va: "v \<in> set ns" "a < rank h v" "d = slot h v a" "is_dangling h d"
    by (auto simp: set_dangling_edges)
  have ok: "edge_ok h ns v a" using assms(1) va by (simp add: wf_net_edge_ok)
  have loc: "node1 (edge_tab h ! d) = v" "axis1 (edge_tab h ! d) = a"
    using edge_ok_dangling [OF ok] va by auto
  show "node1 (edge_tab h ! d) \<in> set ns" "axis1 (edge_tab h ! d) < rank h (node1 (edge_tab h ! d))"
    "slot h (node1 (edge_tab h ! d)) (axis1 (edge_tab h ! d)) = d" "is_dangling h d"
    using loc va by auto
  show "d < length (edge_tab h)" using edge_ok_bound [OF ok] va by simp
  show "node1 (edge_tab h ! d) < length (node_tab h)"
    using loc va wf_net_node [OF assms(1)] by auto
qed

lemma slot_eq_dangling:
  assumes "wf_net h ns" "d \<in> set (dangling_edges h ns)" "u \<in> set ns" "b < rank h u"
  shows "slot h u b = d \<longleftrightarrow> u = node1 (edge_tab h ! d) \<and> b = axis1 (edge_tab h ! d)"
proof
  assume e: "slot h u b = d"
  have "edge_ok h ns u b" using assms by (simp add: wf_net_edge_ok)
  moreover have "is_dangling h (slot h u b)" using e dangling_location(4) [OF assms(1,2)] by simp
  ultimately show "u = node1 (edge_tab h ! d) \<and> b = axis1 (edge_tab h ! d)"
    using edge_ok_dangling e by fastforce
next
  assume "u = node1 (edge_tab h ! d) \<and> b = axis1 (edge_tab h ! d)"
  then show "slot h u b = d" using dangling_location(3) [OF assms(1,2)] by simp
qed

text \<open>Connecting two dangling edges of a well-formed network.\<close>

lemma connect_dangling_succeeds:
  assumes "wf_net h ns" "d1 \<in> set (dangling_edges h ns)" "d2 \<in> set (dangling_edges h ns)"
    "d1 \<noteq> d2" "dimension h d1 = dimension h d2"
  shows "\<exists>h'. tn_connect d1 d2 h = Inr h'"
  by (rule tn_connect_succeeds) (use assms dangling_location(4) in auto)

lemma connect_dangling_slot:
  assumes wf: "wf_net h ns" and d1: "d1 \<in> set (dangling_edges h ns)" and d2: "d2 \<in> set (dangling_edges h ns)"
    and c: "tn_connect d1 d2 h = Inr h'" and u: "u \<in> set ns" "b < rank h u"
  shows "slot h' u b = (if slot h u b = d1 \<or> slot h u b = d2 then length (edge_tab h) else slot h u b)"
  using tn_connect_slot [OF c dangling_location(6) [OF wf d1] dangling_location(2) [OF wf d1]
      dangling_location(6) [OF wf d2] dangling_location(2) [OF wf d2] u(2)]
    slot_eq_dangling [OF wf d1 u] slot_eq_dangling [OF wf d2 u]
  by simp

lemma connect_old_edge:
  assumes "tn_connect d1 d2 h = Inr h'" "e < length (edge_tab h)"
  shows "edge_tab h' ! e = edge_tab h ! e" "is_dangling h' e = is_dangling h e"
    "dimension h' e = dimension h e"
  using assms tn_connect_Inr(6,7) [OF assms(1)]
  by (simp_all add: nth_append is_dangling_def dimension_def Let_def)

lemma connect_new_edge:
  assumes "tn_connect d1 d2 h = Inr h'"
  shows "edge_tab h' ! length (edge_tab h) =
     \<lparr>node1 = node1 (edge_tab h ! d1), axis1 = axis1 (edge_tab h ! d1),
      node2 = Some (node1 (edge_tab h ! d2)), axis2 = Some (axis1 (edge_tab h ! d2))\<rparr>"
    "length (edge_tab h') = Suc (length (edge_tab h))"
    "\<not> is_dangling h' (length (edge_tab h))"
  using tn_connect_Inr(6) [OF assms] by (simp_all add: is_dangling_def)

lemma connect_dangling_wf:
  assumes wf: "wf_net h ns" and d1: "d1 \<in> set (dangling_edges h ns)" and d2: "d2 \<in> set (dangling_edges h ns)"
    and c: "tn_connect d1 d2 h = Inr h'"
  shows "wf_net h' ns"
  unfolding wf_net_def
proof (intro conjI ballI)
  show "distinct ns" using wf by (simp add: wf_net_def)
next
  fix v assume v: "v \<in> set ns"
  show "v < length (node_tab h')" using wf_net_node [OF wf v] tn_connect_Inr(5) [OF c] by simp
  show "length (shape (tensor (node_tab h' ! v))) = rank h' v"
    using wf_net_node [OF wf v] tn_connect_Inr(7,8) [OF c] by simp
  fix a assume "a \<in> set [0..<rank h' v]"
  then have a: "a < rank h v" using tn_connect_Inr(8) [OF c] by simp
  have ok: "edge_ok h ns v a" using wf v a by (simp add: wf_net_edge_ok)
  note sl = connect_dangling_slot [OF wf d1 d2 c]
  note l1 = dangling_location [OF wf d1] and l2 = dangling_location [OF wf d2]
  let ?n = "length (edge_tab h)"
  show "edge_ok h' ns v a"
  proof (cases "slot h v a = d1 \<or> slot h v a = d2")
    case True
    then have s: "slot h' v a = ?n" using sl [OF v a] by simp
    have "slot h' (node1 (edge_tab h ! d1)) (axis1 (edge_tab h ! d1)) = ?n"
      using sl [OF l1(1) l1(2)] l1(3) by simp
    moreover have "slot h' (node1 (edge_tab h ! d2)) (axis1 (edge_tab h ! d2)) = ?n"
      using sl [OF l2(1) l2(2)] l2(3) by simp
    ultimately show ?thesis
      using s connect_new_edge [OF c] l1 l2 tn_connect_Inr(8) [OF c]
      by (simp add: edge_ok_def Let_def)
  next
    case False
    then have s: "slot h' v a = slot h v a" using sl [OF v a] by simp
    have b: "slot h v a < ?n" using edge_ok_bound [OF ok] .
    note old = connect_old_edge [OF c b]
    show ?thesis
    proof (cases "is_dangling h (slot h v a)")
      case True
      then show ?thesis
        using edge_ok_dangling [OF ok True] s old b connect_new_edge(2) [OF c]
        by (simp add: edge_ok_def Let_def is_dangling_def)
    next
      case nd: False
      from edge_ok_connected [OF ok nd] obtain v2 a2 where
        e: "node2 (edge_tab h ! slot h v a) = Some v2"
        "axis2 (edge_tab h ! slot h v a) = Some a2"
        "node1 (edge_tab h ! slot h v a) \<in> set ns" "v2 \<in> set ns"
        "axis1 (edge_tab h ! slot h v a) < rank h (node1 (edge_tab h ! slot h v a))" "a2 < rank h v2"
        "slot h (node1 (edge_tab h ! slot h v a)) (axis1 (edge_tab h ! slot h v a)) = slot h v a"
        "slot h v2 a2 = slot h v a" by blast
      have "slot h' (node1 (edge_tab h ! slot h v a)) (axis1 (edge_tab h ! slot h v a)) = slot h v a"
        using sl [OF e(3) e(5)] e(7) False by simp
      moreover have "slot h' v2 a2 = slot h v a"
        using sl [OF e(4) e(6)] e(8) False by simp
      ultimately show ?thesis
        using e s old b connect_new_edge(2) [OF c] tn_connect_Inr(8) [OF c]
        by (simp add: edge_ok_def Let_def)
    qed
  qed
qed

lemma connect_dangling_set:
  assumes wf: "wf_net h ns" and d1: "d1 \<in> set (dangling_edges h ns)" and d2: "d2 \<in> set (dangling_edges h ns)"
    and c: "tn_connect d1 d2 h = Inr h'"
  shows "set (dangling_edges h' ns) = set (dangling_edges h ns) - {d1, d2}"
proof -
  note sl = connect_dangling_slot [OF wf d1 d2 c]
  note r = tn_connect_Inr(8) [OF c]
  let ?n = "length (edge_tab h)"
  have old: "\<And>v a. v \<in> set ns \<Longrightarrow> a < rank h v \<Longrightarrow> is_dangling h' (slot h v a) = is_dangling h (slot h v a)"
    using connect_old_edge(2) [OF c] edge_ok_bound wf_net_edge_ok [OF wf] by blast
  show ?thesis
  proof (intro set_eqI iffI)
    fix e assume "e \<in> set (dangling_edges h' ns)"
    then obtain v a where va: "v \<in> set ns" "a < rank h v" "e = slot h' v a" "is_dangling h' e"
      by (auto simp: set_dangling_edges r)
    have ne: "\<not> (slot h v a = d1 \<or> slot h v a = d2)"
      using sl [OF va(1,2)] va(3,4) connect_new_edge(3) [OF c] by auto
    then have "e = slot h v a" using sl [OF va(1,2)] va(3) by simp
    then show "e \<in> set (dangling_edges h ns) - {d1, d2}"
      using va ne old [OF va(1,2)] by (auto simp: set_dangling_edges)
  next
    fix e assume "e \<in> set (dangling_edges h ns) - {d1, d2}"
    then obtain v a where va: "v \<in> set ns" "a < rank h v" "e = slot h v a" "is_dangling h e"
      "e \<noteq> d1" "e \<noteq> d2"
      by (auto simp: set_dangling_edges)
    then have "slot h' v a = e" using sl [OF va(1,2)] by simp
    moreover have "is_dangling h' e" using va old [OF va(1,2)] by simp
    ultimately show "e \<in> set (dangling_edges h' ns)"
      using dangling_edgesI [of v ns a h'] va(1,2) r by simp
  qed
qed

subsection \<open>Extending the store\<close>

lemma take_prefix_nth: "take (length xs) ys = xs \<Longrightarrow> i < length xs \<Longrightarrow> ys ! i = xs ! i"
  by (metis nth_take)

lemma take_prefix_length: "take (length xs) ys = xs \<Longrightarrow> length xs \<le> length ys"
  by (metis length_take min.cobounded1)

lemma heap_extends_refl [simp]: "heap_extends h h"
  by (simp add: heap_extends_def)

lemma heap_extends_trans: "heap_extends h1 h2 \<Longrightarrow> heap_extends h2 h3 \<Longrightarrow> heap_extends h1 h3"
  unfolding heap_extends_def
  by (metis take_prefix_length min.absorb_iff2 take_take min.commute)

lemma heap_extends_append [simp]:
  "heap_extends h \<lparr>node_tab = node_tab h @ X, edge_tab = edge_tab h @ Y\<rparr>"
  by (simp add: heap_extends_def)

lemma ext_node: "heap_extends h h' \<Longrightarrow> v < length (node_tab h) \<Longrightarrow> node_tab h' ! v = node_tab h ! v"
  by (simp add: heap_extends_def take_prefix_nth)

lemma ext_edge: "heap_extends h h' \<Longrightarrow> e < length (edge_tab h) \<Longrightarrow> edge_tab h' ! e = edge_tab h ! e"
  by (simp add: heap_extends_def take_prefix_nth)

lemma ext_length:
  "heap_extends h h' \<Longrightarrow> length (node_tab h) \<le> length (node_tab h')"
  "heap_extends h h' \<Longrightarrow> length (edge_tab h) \<le> length (edge_tab h')"
  by (simp_all add: heap_extends_def take_prefix_length)

lemma ext_slot: "heap_extends h h' \<Longrightarrow> v < length (node_tab h) \<Longrightarrow> slot h' v a = slot h v a"
  by (simp add: slot_def ext_node)

lemma ext_rank: "heap_extends h h' \<Longrightarrow> v < length (node_tab h) \<Longrightarrow> rank h' v = rank h v"
  by (simp add: rank_def ext_node)

lemma ext_is_dangling: "heap_extends h h' \<Longrightarrow> e < length (edge_tab h) \<Longrightarrow> is_dangling h' e = is_dangling h e"
  by (simp add: is_dangling_def ext_edge)

lemma ext_dimension:
  "heap_extends h h' \<Longrightarrow> e < length (edge_tab h) \<Longrightarrow> node1 (edge_tab h ! e) < length (node_tab h) \<Longrightarrow>
   dimension h' e = dimension h e"
  by (simp add: dimension_def Let_def ext_edge ext_node)

lemma ext_edge_ok:
  assumes x: "heap_extends h h'" and wf: "wf_net h ns" and v: "v \<in> set ns" "a < rank h v"
  shows "edge_ok h' ns v a"
proof -
  have n: "\<And>u. u \<in> set ns \<Longrightarrow> u < length (node_tab h)" using wf_net_node [OF wf] by simp
  have ok: "edge_ok h ns v a" using wf v by (simp add: wf_net_edge_ok)
  have b: "slot h v a < length (edge_tab h)" using edge_ok_bound [OF ok] .
  have s: "slot h' v a = slot h v a" using ext_slot [OF x] n v by simp
  have E: "edge_tab h' ! slot h v a = edge_tab h ! slot h v a" using ext_edge [OF x b] .
  show ?thesis
  proof (cases "is_dangling h (slot h v a)")
    case True
    then show ?thesis
      using edge_ok_dangling [OF ok True] s E b ext_length(2) [OF x]
      by (simp add: edge_ok_def Let_def is_dangling_def)
  next
    case False
    from edge_ok_connected [OF ok False] obtain v2 a2 where
      e: "node2 (edge_tab h ! slot h v a) = Some v2"
      "axis2 (edge_tab h ! slot h v a) = Some a2"
      "node1 (edge_tab h ! slot h v a) \<in> set ns" "v2 \<in> set ns"
      "axis1 (edge_tab h ! slot h v a) < rank h (node1 (edge_tab h ! slot h v a))" "a2 < rank h v2"
      "slot h (node1 (edge_tab h ! slot h v a)) (axis1 (edge_tab h ! slot h v a)) = slot h v a"
      "slot h v2 a2 = slot h v a" by blast
    show ?thesis
      using e s E b ext_length(2) [OF x] ext_slot [OF x n] ext_rank [OF x n]
      by (simp add: edge_ok_def Let_def)
  qed
qed

lemma ext_wf_net:
  assumes "heap_extends h h'" "wf_net h ns"
  shows "wf_net h' ns"
  unfolding wf_net_def
proof (intro conjI ballI)
  show "distinct ns" using assms(2) by (simp add: wf_net_def)
next
  fix v assume v: "v \<in> set ns"
  then have n: "v < length (node_tab h)" using wf_net_node [OF assms(2)] by simp
  show "v < length (node_tab h')" using n ext_length(1) [OF assms(1)] by simp
  show "length (shape (tensor (node_tab h' ! v))) = rank h' v"
    using wf_net_node [OF assms(2) v] ext_node [OF assms(1) n] ext_rank [OF assms(1) n] by simp
  fix a assume "a \<in> set [0..<rank h' v]"
  then have "a < rank h v" using ext_rank [OF assms(1) n] by simp
  then show "edge_ok h' ns v a" using ext_edge_ok [OF assms v] by simp
qed

lemma ext_dangling_edges:
  assumes x: "heap_extends h h'" and wf: "wf_net h ns"
  shows "dangling_edges h' ns = dangling_edges h ns"
proof -
  have n: "\<And>u. u \<in> set ns \<Longrightarrow> u < length (node_tab h)" using wf_net_node [OF wf] by simp
  have a: "all_edges h' ns = all_edges h ns"
    unfolding all_edges_def using ext_node [OF x n] by (simp cong: map_cong)
  have "\<And>e. e \<in> set (all_edges h ns) \<Longrightarrow> e < length (edge_tab h)"
    using wf_net_edge_ok [OF wf] edge_ok_bound by (fastforce simp: set_all_edges)
  then show ?thesis
    unfolding dangling_edges_def a using ext_is_dangling [OF x] by (simp cong: filter_cong)
qed

lemma edge_ok_set_cong: "set ns' = set ns \<Longrightarrow> edge_ok h ns' v a = edge_ok h ns v a"
  by (simp add: edge_ok_def cong: option.case_cong)

lemma wf_net_set_cong:
  assumes "wf_net h ns" "set ns' = set ns" "distinct ns'"
  shows "wf_net h ns'"
proof -
  have "edge_ok h ns' v a = edge_ok h ns v a" for v a
    using assms(2) by (rule edge_ok_set_cong)
  then show ?thesis using assms by (simp add: wf_net_def)
qed

lemma dangling_edges_set_cong:
  "set ns' = set ns \<Longrightarrow> set (dangling_edges h ns') = set (dangling_edges h ns)"
  by (simp add: set_dangling_edges)

subsection \<open>A new node in a network\<close>

lemma tn_Node_extends: "heap_extends h (snd (tn_Node t h))"
  by (simp add: tn_Node_def Let_def)

lemma tn_Node_new:
  assumes "tn_Node t h = (v, h')"
  shows "v = length (node_tab h)" "length (node_tab h') = Suc (length (node_tab h))"
    "tensor (node_tab h' ! v) = t" "rank h' v = length (shape t)"
    "length (edge_tab h') = length (edge_tab h) + length (shape t)"
    "heap_extends h h'"
    "\<And>a. a < length (shape t) \<Longrightarrow> slot h' v a = length (edge_tab h) + a"
    "\<And>a. a < length (shape t) \<Longrightarrow>
          edge_tab h' ! (length (edge_tab h) + a) = \<lparr>node1 = v, axis1 = a, node2 = None, axis2 = None\<rparr>"
  using assms by (auto simp: tn_Node_def Let_def rank_def slot_def nth_append)

lemma tn_Node_wf:
  assumes wf: "wf_net h ns" and t: "tn_Node t h = (v, h')"
  shows "wf_net h' (v # ns)"
  unfolding wf_net_def
proof (intro conjI ballI)
  note nw = tn_Node_new [OF t]
  have n: "\<And>u. u \<in> set ns \<Longrightarrow> u < length (node_tab h)" using wf_net_node [OF wf] by simp
  have wf': "wf_net h' ns" using ext_wf_net [OF nw(6) wf] .
  show "distinct (v # ns)" using wf n nw(1) by (auto simp: wf_net_def)
  fix u assume u: "u \<in> set (v # ns)"
  show "u < length (node_tab h')" using u n [of u] nw(1,2) by auto
  show "length (shape (tensor (node_tab h' ! u))) = rank h' u"
    using u nw(3,4) wf_net_node [OF wf'] by auto
  fix a assume "a \<in> set [0..<rank h' u]"
  then have a: "a < rank h' u" by simp
  show "edge_ok h' (v # ns) u a"
  proof (cases "u = v")
    case True
    then show ?thesis using a nw by (simp add: edge_ok_def Let_def)
  next
    case False
    then have "edge_ok h' ns u a" using wf_net_edge_ok [OF wf'] u a by simp
    then show ?thesis by (auto simp: edge_ok_def Let_def split: option.splits)
  qed
qed

lemma tn_Node_dangling:
  assumes wf: "wf_net h ns" and t: "tn_Node t h = (v, h')"
  shows "set (dangling_edges h' (v # ns)) =
         set (dangling_edges h ns) \<union> {length (edge_tab h) + a | a. a < length (shape t)}"
proof -
  note nw = tn_Node_new [OF t]
  have "set (dangling_edges h' (v # ns)) =
        {slot h' v a | a. a < rank h' v \<and> is_dangling h' (slot h' v a)} \<union> set (dangling_edges h' ns)"
    by (auto simp: set_dangling_edges)
  moreover have "{slot h' v a | a. a < rank h' v \<and> is_dangling h' (slot h' v a)} =
        {length (edge_tab h) + a | a. a < length (shape t)}"
  proof (intro set_eqI iffI)
    fix e assume "e \<in> {slot h' v a | a. a < rank h' v \<and> is_dangling h' (slot h' v a)}"
    then show "e \<in> {length (edge_tab h) + a | a. a < length (shape t)}"
      using nw(4,7) by auto
  next
    fix e assume "e \<in> {length (edge_tab h) + a | a. a < length (shape t)}"
    then obtain a where a: "a < length (shape t)" "e = length (edge_tab h) + a" by auto
    then have "e = slot h' v a \<and> a < rank h' v \<and> is_dangling h' (slot h' v a)"
      using nw(4) nw(7) [OF a(1)] nw(8) [OF a(1)] by (simp add: is_dangling_def)
    then show "e \<in> {slot h' v a | a. a < rank h' v \<and> is_dangling h' (slot h' v a)}" by blast
  qed
  ultimately show ?thesis using ext_dangling_edges [OF nw(6) wf] by (simp add: Un_commute)
qed

lemma tn_Node_dimension:
  assumes "tn_Node t h = (v, h')" "a < length (shape t)"
  shows "dimension h' (length (edge_tab h) + a) = shape t ! a"
  using tn_Node_new(3,8) [OF assms(1)] assms(2) by (simp add: dimension_def Let_def)

subsection \<open>One step of the gate loop\<close>

lemma get_edge_slot: "a < rank h v \<Longrightarrow> get_edge h v (int a) = Inr (slot h v a)"
  by (simp add: get_edge_def rank_def slot_def)

lemma get_edge_IndexError: "rank h v \<le> a \<Longrightarrow> get_edge h v (int a) = Inl IndexError"
  by (simp add: get_edge_def rank_def py_getitem_def py_index_def)

lemma gate_step_ok:
  assumes wf: "wf_net h ns" and g: "g \<in> set ns"
    and gj: "j < rank h g" "j + k < rank h g"
    and q: "py_index (length (c_front c)) ind = Some q"
    and d1: "slot h g j \<in> set (dangling_edges h ns)"
    and d2: "c_front c ! q \<in> set (dangling_edges h ns)"
    and ne: "slot h g j \<noteq> c_front c ! q"
    and dim: "dimension h (slot h g j) = dimension h (c_front c ! q)"
    and out: "slot h g (j + k) \<noteq> slot h g j" "slot h g (j + k) \<noteq> c_front c ! q"
  obtains h' where "tn_connect (slot h g j) (c_front c ! q) h = Inr h'"
    "gate_step g k j ind (h, c) = (Inr (), (h', c\<lparr>c_front := (c_front c)[q := slot h g (j + k)]\<rparr>))"
proof -
  from connect_dangling_succeeds [OF wf d1 d2 ne dim]
  obtain h' where c: "tn_connect (slot h g j) (c_front c ! q) h = Inr h'" by blast
  have r: "rank h' g = rank h g" using tn_connect_Inr(8) [OF c] .
  have s: "slot h' g (j + k) = slot h g (j + k)"
    using connect_dangling_slot [OF wf d1 d2 c g gj(2)] out by simp
  have 1: "front_connect g (int j) ind (h, c) = (Inr (), (h', c))"
    using c gj(1) q by (simp add: front_connect_def get_edge_slot py_getitem_index)
  have 2: "front_assign g (int (j + k)) ind (h', c)
       = (Inr (), (h', c\<lparr>c_front := (c_front c)[q := slot h g (j + k)]\<rparr>))"
    using gj(2) r s q by (simp add: front_assign_def get_edge_slot py_setitem_index del: of_nat_add)
  have "gate_step g k j ind (h, c) = (Inr (), (h', c\<lparr>c_front := (c_front c)[q := slot h g (j + k)]\<rparr>))"
    unfolding gate_step_def thenS_def by (simp add: 1 2 del: of_nat_add)
  then show thesis using that c by blast
qed

subsection \<open>The gate loop\<close>

lemma dangling_slot_node:
  assumes "wf_net h ns" "g \<in> set ns" "a < rank h g" "slot h g a \<in> set (dangling_edges h ns)"
  shows "node1 (edge_tab h ! slot h g a) = g" "axis1 (edge_tab h ! slot h g a) = a"
  using slot_eq_dangling [OF assms(1,4,2,3)] by auto

lemma gate_loop_ok:
  assumes wf: "wf_net h ns" and g: "g \<in> set ns" and rk: "rank h g = 2 * k"
    and len: "length rest = length qs" "j + length rest = k"
    and ix: "\<forall>i<length rest. py_index (length (c_front c)) (rest ! i) = Some (qs ! i)"
    and dq: "distinct qs"
    and gate: "\<forall>a. j \<le> a \<and> a < 2 * k \<longrightarrow>
                 slot h g a \<in> set (dangling_edges h ns) \<and> dimension h (slot h g a) = 2"
    and fr: "\<forall>q \<in> set qs. c_front c ! q \<in> set (dangling_edges h ns) \<and>
                 node1 (edge_tab h ! (c_front c ! q)) \<noteq> g \<and> dimension h (c_front c ! q) = 2"
    and inj: "inj_on (\<lambda>q. c_front c ! q) (set qs)"
  shows "\<exists>h' f'. gate_loop g k (enumerate j rest) (h, c) = (Inr (), (h', c\<lparr>c_front := f'\<rparr>))
     \<and> wf_net h' ns
     \<and> length (node_tab h') = length (node_tab h)
     \<and> (\<forall>u. tensor (node_tab h' ! u) = tensor (node_tab h ! u))
     \<and> (\<forall>u. rank h' u = rank h u)
     \<and> edge_tab h' = edge_tab h @ map (\<lambda>i.
           \<lparr>node1 = g, axis1 = j + i,
            node2 = Some (node1 (edge_tab h ! (c_front c ! (qs ! i)))),
            axis2 = Some (axis1 (edge_tab h ! (c_front c ! (qs ! i))))\<rparr>) [0..<length rest]
     \<and> (\<forall>i<length rest. slot h' g (j + i) = length (edge_tab h) + i \<and>
           slot h' (node1 (edge_tab h ! (c_front c ! (qs ! i))))
                   (axis1 (edge_tab h ! (c_front c ! (qs ! i)))) = length (edge_tab h) + i)
     \<and> (\<forall>u \<in> set ns. \<forall>b<rank h u.
           slot h u b \<notin> slot h g ` {j..<k} \<union> (\<lambda>q. c_front c ! q) ` set qs \<longrightarrow>
           slot h' u b = slot h u b)
     \<and> set (dangling_edges h' ns) =
         set (dangling_edges h ns) - (slot h g ` {j..<k} \<union> (\<lambda>q. c_front c ! q) ` set qs)
     \<and> length f' = length (c_front c)
     \<and> (\<forall>i<length rest. f' ! (qs ! i) = slot h g (k + j + i))
     \<and> (\<forall>q. q \<notin> set qs \<longrightarrow> f' ! q = c_front c ! q)"
  using assms
proof (induction rest arbitrary: j qs h c)
  case Nil
  then show ?case by (intro exI [of _ h] exI [of _ "c_front c"]) simp
next
  case (Cons ind rest')
  note wf = Cons.prems(1) and g = Cons.prems(2) and rk = Cons.prems(3)
    and ix = Cons.prems(6) and gate = Cons.prems(8) and fr = Cons.prems(9) and inj = Cons.prems(10)
  from Cons.prems(4) obtain q0 qs' where qs: "qs = q0 # qs'" and l': "length rest' = length qs'"
    by (cases qs) auto
  have jk: "Suc j + length rest' = k" "j < k" using Cons.prems(5) by auto
  have dq: "q0 \<notin> set qs'" "distinct qs'" using Cons.prems(7) qs by auto
  let ?F = "c_front c"
  let ?gi = "slot h g j" and ?fe = "?F ! q0" and ?out = "slot h g (j + k)"
  have i0: "py_index (length ?F) ind = Some q0" using ix qs by auto
  have q0: "q0 < length ?F" using py_index_lt [OF i0] .
  have gd: "\<And>a. j \<le> a \<Longrightarrow> a < 2 * k \<Longrightarrow> slot h g a \<in> set (dangling_edges h ns)"
    and gdim: "\<And>a. j \<le> a \<Longrightarrow> a < 2 * k \<Longrightarrow> dimension h (slot h g a) = 2"
    using gate by auto
  have gn: "\<And>a. j \<le> a \<Longrightarrow> a < 2 * k \<Longrightarrow> node1 (edge_tab h ! slot h g a) = g"
    and ga: "\<And>a. j \<le> a \<Longrightarrow> a < 2 * k \<Longrightarrow> axis1 (edge_tab h ! slot h g a) = a"
    using dangling_slot_node [OF wf g _ gd] rk by auto
  have fd: "\<And>q. q \<in> set qs \<Longrightarrow> ?F ! q \<in> set (dangling_edges h ns)"
    and fn: "\<And>q. q \<in> set qs \<Longrightarrow> node1 (edge_tab h ! (?F ! q)) \<noteq> g"
    and fdim: "\<And>q. q \<in> set qs \<Longrightarrow> dimension h (?F ! q) = 2"
    using fr by auto
  have gf: "\<And>a q. j \<le> a \<Longrightarrow> a < 2 * k \<Longrightarrow> q \<in> set qs \<Longrightarrow> slot h g a \<noteq> ?F ! q"
    using gn fn by metis
  have gg: "\<And>a b. j \<le> a \<Longrightarrow> a < 2 * k \<Longrightarrow> j \<le> b \<Longrightarrow> b < 2 * k \<Longrightarrow> a \<noteq> b \<Longrightarrow> slot h g a \<noteq> slot h g b"
    using ga by metis
  have d1: "?gi \<in> set (dangling_edges h ns)" using gd jk by simp
  have d2: "?fe \<in> set (dangling_edges h ns)" using fd qs by simp
  from gate_step_ok [OF wf g _ _ i0 d1 d2, of k]
  obtain h1 where c1: "tn_connect ?gi ?fe h = Inr h1"
    and st: "gate_step g k j ind (h, c) = (Inr (), (h1, c\<lparr>c_front := ?F[q0 := ?out]\<rparr>))"
    using rk jk gf [of j q0] gdim [of j] fdim [of q0] gg [of "j + k" j] gf [of "j + k" q0] qs
    by auto
  let ?c1 = "c\<lparr>c_front := ?F[q0 := ?out]\<rparr>"
  let ?n = "length (edge_tab h)"
  note sl = connect_dangling_slot [OF wf d1 d2 c1]
  note r1 = tn_connect_Inr(8) [OF c1]
  have wf1: "wf_net h1 ns" using connect_dangling_wf [OF wf d1 d2 c1] .
  have dg1: "set (dangling_edges h1 ns) = set (dangling_edges h ns) - {?gi, ?fe}"
    using connect_dangling_set [OF wf d1 d2 c1] .
  have old: "\<And>e. e \<in> set (dangling_edges h ns) \<Longrightarrow>
       edge_tab h1 ! e = edge_tab h ! e \<and> dimension h1 e = dimension h e"
    using connect_old_edge [OF c1] dangling_location(5) [OF wf] by simp
  have gs1: "slot h1 g a = slot h g a" if "Suc j \<le> a" "a < 2 * k" for a
  proof -
    have "slot h g a \<noteq> ?gi" using gg [of a j] that by simp
    moreover have "slot h g a \<noteq> ?fe" using gf [of a q0] that qs by simp
    ultimately show ?thesis using sl [OF g, of a] rk that by simp
  qed
  have f1: "c_front ?c1 ! q = ?F ! q" if "q \<in> set qs'" for q
  proof -
    have "q \<noteq> q0" using that dq by auto
    then show ?thesis by simp
  qed
  have inj': "\<And>q. q \<in> set qs' \<Longrightarrow> ?F ! q \<noteq> ?fe"
    using inj dq qs by (metis inj_on_def list.set_intros(1) list.set_intros(2))
  have ih_gate: "\<forall>a. Suc j \<le> a \<and> a < 2 * k \<longrightarrow>
        slot h1 g a \<in> set (dangling_edges h1 ns) \<and> dimension h1 (slot h1 g a) = 2"
  proof (intro allI impI)
    fix a assume a: "Suc j \<le> a \<and> a < 2 * k"
    then have "slot h g a \<noteq> ?gi" "slot h g a \<noteq> ?fe"
      using gg [of a j] gf [of a q0] qs by auto
    then show "slot h1 g a \<in> set (dangling_edges h1 ns) \<and> dimension h1 (slot h1 g a) = 2"
      using a gs1 [of a] dg1 gd [of a] gdim [of a] old [of "slot h g a"] by auto
  qed
  have ih_fr: "\<forall>q \<in> set qs'. c_front ?c1 ! q \<in> set (dangling_edges h1 ns) \<and>
        node1 (edge_tab h1 ! (c_front ?c1 ! q)) \<noteq> g \<and> dimension h1 (c_front ?c1 ! q) = 2"
  proof
    fix q assume q: "q \<in> set qs'"
    then have qq: "q \<in> set qs" using qs by simp
    have "?F ! q \<noteq> ?gi" using gf [of j q] qq jk by auto
    then show "c_front ?c1 ! q \<in> set (dangling_edges h1 ns) \<and>
        node1 (edge_tab h1 ! (c_front ?c1 ! q)) \<noteq> g \<and> dimension h1 (c_front ?c1 ! q) = 2"
      using f1 [OF q] inj' [OF q] dg1 fd [OF qq] fn [OF qq] fdim [OF qq] old [OF fd [OF qq]] by auto
  qed
  have ih_inj: "inj_on (\<lambda>q. c_front ?c1 ! q) (set qs')"
    using inj f1 qs by (auto simp: inj_on_def)
  have ih_ix: "\<forall>i<length rest'. py_index (length (c_front ?c1)) (rest' ! i) = Some (qs' ! i)"
    using ix qs by auto
  have rk1: "rank h1 g = 2 * k" using r1 rk by simp
  from Cons.IH [OF wf1 g rk1 l' jk(1) ih_ix dq(2) ih_gate ih_fr ih_inj]
  obtain h' f' where
    loop: "gate_loop g k (enumerate (Suc j) rest') (h1, ?c1) = (Inr (), (h', ?c1\<lparr>c_front := f'\<rparr>))"
    and wf': "wf_net h' ns"
    and nt: "length (node_tab h') = length (node_tab h1)"
    and tn: "\<forall>u. tensor (node_tab h' ! u) = tensor (node_tab h1 ! u)"
    and rn: "\<forall>u. rank h' u = rank h1 u"
    and et: "edge_tab h' = edge_tab h1 @ map (\<lambda>i.
           \<lparr>node1 = g, axis1 = Suc j + i,
            node2 = Some (node1 (edge_tab h1 ! (c_front ?c1 ! (qs' ! i)))),
            axis2 = Some (axis1 (edge_tab h1 ! (c_front ?c1 ! (qs' ! i))))\<rparr>) [0..<length rest']"
    and sn: "\<forall>i<length rest'. slot h' g (Suc j + i) = length (edge_tab h1) + i \<and>
           slot h' (node1 (edge_tab h1 ! (c_front ?c1 ! (qs' ! i))))
                   (axis1 (edge_tab h1 ! (c_front ?c1 ! (qs' ! i)))) = length (edge_tab h1) + i"
    and fm: "\<forall>u \<in> set ns. \<forall>b<rank h1 u.
           slot h1 u b \<notin> slot h1 g ` {Suc j..<k} \<union> (\<lambda>q. c_front ?c1 ! q) ` set qs' \<longrightarrow>
           slot h' u b = slot h1 u b"
    and dg': "set (dangling_edges h' ns) =
         set (dangling_edges h1 ns) - (slot h1 g ` {Suc j..<k} \<union> (\<lambda>q. c_front ?c1 ! q) ` set qs')"
    and fl: "length f' = length (c_front ?c1)"
    and fo: "\<forall>i<length rest'. f' ! (qs' ! i) = slot h1 g (k + Suc j + i)"
    and fu: "\<forall>q. q \<notin> set qs' \<longrightarrow> f' ! q = c_front ?c1 ! q"
    by (elim exE conjE) (rule that; assumption)
  let ?R = "slot h g ` {j..<k} \<union> (\<lambda>q. ?F ! q) ` set qs"
  let ?R1 = "slot h1 g ` {Suc j..<k} \<union> (\<lambda>q. c_front ?c1 ! q) ` set qs'"
  have R1a: "slot h1 g ` {Suc j..<k} = slot h g ` {Suc j..<k}"
    using gs1 by (intro image_cong) auto
  have R1b: "(\<lambda>q. c_front ?c1 ! q) ` set qs' = (\<lambda>q. ?F ! q) ` set qs'"
    using f1 by (intro image_cong) auto
  have jset: "{j..<k} = insert j {Suc j..<k}" using jk by auto
  have R: "?R = {?gi, ?fe} \<union> ?R1"
    unfolding R1a R1b qs jset by auto
  have R1d: "?R1 \<subseteq> set (dangling_edges h1 ns)"
    using ih_gate ih_fr jk by auto
  have newnd: "?n \<notin> ?R1"
    using R1d connect_new_edge(3) [OF c1] dangling_location(4) [OF wf1] by blast
  have e1: "length (edge_tab h1) = Suc ?n" using connect_new_edge(2) [OF c1] .
  have res: "gate_loop g k (enumerate j (ind # rest')) (h, c) = (Inr (), (h', c\<lparr>c_front := f'\<rparr>))"
    using st loop by (simp add: thenS_def)
  have Fi: "\<And>i. i < length rest' \<Longrightarrow>
      edge_tab h1 ! (c_front ?c1 ! (qs' ! i)) = edge_tab h ! (?F ! (qs ! Suc i))"
    using f1 old fd qs l' by (metis list.set_intros(2) nth_Cons_Suc nth_mem)
  have P_et: "edge_tab h' = edge_tab h @ map (\<lambda>i.
           \<lparr>node1 = g, axis1 = j + i,
            node2 = Some (node1 (edge_tab h ! (?F ! (qs ! i)))),
            axis2 = Some (axis1 (edge_tab h ! (?F ! (qs ! i))))\<rparr>) [0..<length (ind # rest')]"
  proof -
    let ?f = "\<lambda>i. \<lparr>node1 = g, axis1 = j + i,
            node2 = Some (node1 (edge_tab h ! (?F ! (qs ! i)))),
            axis2 = Some (axis1 (edge_tab h ! (?F ! (qs ! i))))\<rparr>"
    have a: "edge_tab h1 = edge_tab h @ [?f 0]"
      using tn_connect_Inr(6) [OF c1] gn [of j] ga [of j] jk qs by simp
    have b: "map (\<lambda>i. \<lparr>node1 = g, axis1 = Suc j + i,
            node2 = Some (node1 (edge_tab h1 ! (c_front ?c1 ! (qs' ! i)))),
            axis2 = Some (axis1 (edge_tab h1 ! (c_front ?c1 ! (qs' ! i))))\<rparr>) [0..<length rest']
          = map (\<lambda>i. ?f (Suc i)) [0..<length rest']"
      by (rule map_cong) (use Fi in auto)
    have c: "map ?f [0..<length (ind # rest')] = ?f 0 # map (\<lambda>i. ?f (Suc i)) [0..<length rest']"
      by (simp del: upt_Suc add: map_upt_Suc)
    show ?thesis by (simp only: et b c) (simp add: a)
  qed
  have l1: "node1 (edge_tab h ! ?fe) \<in> set ns" "axis1 (edge_tab h ! ?fe) < rank h (node1 (edge_tab h ! ?fe))"
    "slot h (node1 (edge_tab h ! ?fe)) (axis1 (edge_tab h ! ?fe)) = ?fe"
    using dangling_location [OF wf d2] by auto
  have P_sn: "\<forall>i<length (ind # rest'). slot h' g (j + i) = ?n + i \<and>
           slot h' (node1 (edge_tab h ! (?F ! (qs ! i)))) (axis1 (edge_tab h ! (?F ! (qs ! i)))) = ?n + i"
  proof (intro allI impI)
    fix i assume i: "i < length (ind # rest')"
    show "slot h' g (j + i) = ?n + i \<and>
           slot h' (node1 (edge_tab h ! (?F ! (qs ! i)))) (axis1 (edge_tab h ! (?F ! (qs ! i)))) = ?n + i"
    proof (cases i)
      case 0
      have a: "slot h1 g j = ?n" using sl [OF g, of j] rk jk by simp
      have b: "slot h1 (node1 (edge_tab h ! ?fe)) (axis1 (edge_tab h ! ?fe)) = ?n"
        using sl [OF l1(1,2)] l1(3) by simp
      have "slot h' g j = slot h1 g j" using fm g rk r1 jk a newnd by auto
      moreover have "slot h' (node1 (edge_tab h ! ?fe)) (axis1 (edge_tab h ! ?fe)) =
          slot h1 (node1 (edge_tab h ! ?fe)) (axis1 (edge_tab h ! ?fe))"
        using fm l1(1,2) r1 b newnd by auto
      ultimately show ?thesis using 0 a b qs by simp
    next
      case (Suc i')
      then have i': "i' < length rest'" using i by simp
      show ?thesis using sn [rule_format, OF i'] Fi [OF i'] e1 Suc by simp
    qed
  qed
  have P_fm: "\<forall>u \<in> set ns. \<forall>b<rank h u. slot h u b \<notin> ?R \<longrightarrow> slot h' u b = slot h u b"
  proof (intro ballI allI impI)
    fix u b assume u: "u \<in> set ns" "b < rank h u" "slot h u b \<notin> ?R"
    then have "slot h1 u b = slot h u b" using sl [OF u(1,2)] R by auto
    moreover have "slot h1 u b \<notin> ?R1" using calculation u(3) R by auto
    ultimately show "slot h' u b = slot h u b" using fm u r1 by auto
  qed
  have P_dg: "set (dangling_edges h' ns) = set (dangling_edges h ns) - ?R"
    using dg' dg1 R by auto
  have P_fo: "\<forall>i<length (ind # rest'). f' ! (qs ! i) = slot h g (k + j + i)"
  proof (intro allI impI)
    fix i assume i: "i < length (ind # rest')"
    show "f' ! (qs ! i) = slot h g (k + j + i)"
    proof (cases i)
      case 0
      then show ?thesis using fu dq(1) qs q0 by (simp add: add.commute)
    next
      case (Suc i')
      then have i': "i' < length rest'" using i by simp
      then have "k + Suc j + i' < 2 * k" using jk by simp
      then show ?thesis using fo [rule_format, OF i'] gs1 [of "k + Suc j + i'"] Suc qs by simp
    qed
  qed
  have P_fu: "\<forall>q. q \<notin> set qs \<longrightarrow> f' ! q = ?F ! q"
    using fu qs by auto
  show ?case
    apply (intro exI [of _ h'] exI [of _ f'] conjI)
    subgoal using res by simp
    subgoal using wf' .
    subgoal using nt tn_connect_Inr(5) [OF c1] by simp
    subgoal using tn tn_connect_Inr(7) [OF c1] by simp
    subgoal using rn r1 by simp
    subgoal using P_et by simp
    subgoal using P_sn by simp
    subgoal using P_fm by simp
    subgoal using P_dg by simp
    subgoal using fl by simp
    subgoal using P_fo by simp
    subgoal using P_fu by simp
    done
qed

end
